theory Spec2Isabelle
  imports Main "HOL-Library.Word" "HOL-Library.Multiset"
begin

section \<open>The event store: table \<open>cart_events\<close>\<close>

text \<open>
  The table is created by \<open>initDB\<close> (main.go, lines 60-71):
  \<^verbatim>\<open>
  CREATE TABLE IF NOT EXISTS cart_events (
      id UUID DEFAULT uuid_generate_v4() PRIMARY KEY,
      order_type varchar(30) not null,
      session_id text not null,
      card varchar(16) not null,
      event_date timestamp not null,
      website_url text not null,
      status varchar(20) DEFAULT 'pending',
      created_at timestamp DEFAULT CURRENT_TIMESTAMP );
  \<close>
  A UUID is a 128-bit value; PostgreSQL compares UUIDs bytewise, which is the unsigned
  order of \<open>128 word\<close>. The program writes exactly three literals into \<open>status\<close>
  (\<open>'pending'\<close> by the column default, \<open>'processing'\<close> in \<open>process\<close>, \<open>'processed'\<close> in
  \<open>sendNotification\<close>), so the column is a three-valued datatype. A table is the list of
  its rows in heap order, an INSERT appending at the end.
\<close>

type_synonym uuid = "128 word"

type_synonym timestamp = int

datatype status = Pending | Processing | Processed

record row =
  id_col :: uuid
  order_type :: string
  session_id :: string
  card_col :: string
  event_date :: timestamp
  website_url :: string
  status :: status
  created_at :: timestamp

type_synonym table = "row list"

text \<open>The JSON payload of the ingestion endpoint (struct \<open>CartEvent\<close>, lines 22-28).\<close>

record CartEvent =
  OrderType :: string
  SessionID :: string
  Card :: string
  EventDate :: string
  WebsiteURL :: string

text \<open>
  What the store decides for one statement and the program does not control: whether the
  statement is executed at all (the connection, the pool), the value that
  \<open>uuid_generate_v4()\<close> draws (a random version-4 UUID), the clock, and the server's parser
  of timestamp literals (\<open>event_date\<close> arrives as a string). A statement that fails leaves
  the table as it was.
\<close>

record pg =
  conn_ok :: bool
  uuid_generate_v4 :: uuid
  current_timestamp :: timestamp
  timestamp_in :: "string \<Rightarrow> timestamp option"

datatype pg_error = ConnFailed | BadTimestamp | ValueTooLong | UniqueViolation

text \<open>
  Assignment to a \<open>varchar(n)\<close> column: a longer value is an error unless the excess
  characters are all spaces, in which case it is truncated.
\<close>

definition varchar :: "nat \<Rightarrow> string \<Rightarrow> string option" where
  "varchar n s =
     (if length s \<le> n then Some s
      else if list_all (\<lambda>c. c = CHR '' '') (drop n s) then Some (take n s)
      else None)"

text \<open>
  The INSERT of \<open>Handler.Event\<close> (lines 179-182):
  \<^verbatim>\<open>
  INSERT INTO cart_events (order_type, session_id, card, event_date, website_url)
  VALUES ($1, $2, $3, $4, $5)
  \<close>
  The five parameters are Go strings, hence never NULL; \<open>id\<close>, \<open>status\<close> and
  \<open>created_at\<close> take their column defaults.
\<close>

definition insert_event :: "pg \<Rightarrow> CartEvent \<Rightarrow> table \<Rightarrow> pg_error + table" where
  "insert_event db ev tbl =
     (if \<not> conn_ok db then Inl ConnFailed
      else case timestamp_in db (EventDate ev) of
        None \<Rightarrow> Inl BadTimestamp
      | Some d \<Rightarrow>
         (case varchar 30 (OrderType ev) of
            None \<Rightarrow> Inl ValueTooLong
          | Some ot \<Rightarrow>
             (case varchar 16 (Card ev) of
                None \<Rightarrow> Inl ValueTooLong
              | Some c \<Rightarrow>
                 if uuid_generate_v4 db \<in> set (map id_col tbl) then Inl UniqueViolation
                 else Inr (tbl @
                   [\<lparr>id_col = uuid_generate_v4 db, order_type = ot,
                     session_id = SessionID ev, card_col = c, event_date = d,
                     website_url = WebsiteURL ev, status = Pending,
                     created_at = current_timestamp db\<rparr>]))))"

text \<open>
  The claim statement of \<open>process\<close> (lines 116-129):
  \<^verbatim>\<open>
  WITH cte AS (
      SELECT id, order_type, session_id, card, event_date, website_url
      FROM cart_events WHERE status = 'pending'
      ORDER BY id LIMIT 10 FOR UPDATE SKIP LOCKED )
  UPDATE cart_events SET status = 'processing'
  WHERE id IN (SELECT id FROM cte)
  RETURNING id, order_type, session_id, card, event_date, website_url, status, created_at;
  \<close>
  \<open>pending_rows\<close> is the WHERE clause, \<open>cte\<close> the common table expression when no row
  is locked by another transaction, \<open>set_processing\<close> the UPDATE. The outer statement has
  no ORDER BY, so SQL leaves the order of the RETURNING rows to the executor's plan: it is
  the parameter \<open>emit\<close>, a rank on identifiers by which the returned rows are ordered
  (\<open>\<lambda>_. 0\<close> is heap order, \<open>unat\<close> is identifier order, ties keep heap order).
\<close>

definition pending_rows :: "table \<Rightarrow> row list" where
  "pending_rows tbl = filter (\<lambda>r. status r = Pending) tbl"

definition cte :: "table \<Rightarrow> row list" where
  "cte tbl = take 10 (sort_key id_col (pending_rows tbl))"

definition set_processing :: "uuid list \<Rightarrow> table \<Rightarrow> table" where
  "set_processing ids tbl =
     map (\<lambda>r. if id_col r \<in> set ids then r\<lparr>status := Processing\<rparr> else r) tbl"

definition returning :: "(uuid \<Rightarrow> nat) \<Rightarrow> uuid list \<Rightarrow> table \<Rightarrow> row list" where
  "returning emit ids tbl =
     sort_key (\<lambda>r. emit (id_col r)) (filter (\<lambda>r. id_col r \<in> set ids) tbl)"

definition claim :: "(uuid \<Rightarrow> nat) \<Rightarrow> table \<Rightarrow> row list \<times> table" where
  "claim emit tbl =
     (let ids = map id_col (cte tbl); tbl' = set_processing ids tbl
      in (returning emit ids tbl', tbl'))"

text \<open>
  The terminal update of \<open>sendNotification\<close> (line 243):
  \<^verbatim>\<open>UPDATE cart_events SET status = 'processed' WHERE id = $1\<close>
\<close>

definition finalize :: "uuid \<Rightarrow> table \<Rightarrow> table" where
  "finalize i tbl = map (\<lambda>r. if id_col r = i then r\<lparr>status := Processed\<rparr> else r) tbl"

text \<open>The primary key: no two rows of a table carry the same identifier.\<close>

definition primary_key :: "table \<Rightarrow> bool" where
  "primary_key tbl = distinct (map id_col tbl)"

text \<open>
  The three statements that write the table, as one type of store operations. A failed
  INSERT leaves the table as it was.
\<close>

datatype store_op = Insert pg CartEvent | Claim "uuid \<Rightarrow> nat" | Finalize uuid

fun apply_op :: "store_op \<Rightarrow> table \<Rightarrow> table" where
  "apply_op (Insert db ev) tbl = (case insert_event db ev tbl of Inl e \<Rightarrow> tbl | Inr t \<Rightarrow> t)"
| "apply_op (Claim emit) tbl = snd (claim emit tbl)"
| "apply_op (Finalize i) tbl = finalize i tbl"

text \<open>The position of a status in the chain pending, processing, processed.\<close>

fun rank :: "status \<Rightarrow> nat" where
  "rank Pending = 0"
| "rank Processing = 1"
| "rank Processed = 2"

section \<open>The worker: \<open>process\<close>, \<open>sendNotification\<close>, \<open>workerEvents\<close>\<close>

text \<open>
  The lines the worker writes with \<open>log.Println\<close> and \<open>log.Printf\<close>:
  "Error fetching events:", "Error scanning row:", "NOTIFY: Order %s for card %s" and
  "Failed to update event status:".
\<close>

datatype log_line =
    ErrorFetchingEvents pg_error
  | ErrorScanningRow
  | NOTIFY string string
  | FailedToUpdateEventStatus pg_error

text \<open>
  What the store and the driver decide during one call of \<open>process\<close>: whether
  \<open>db.Query\<close> returns an error; whether the claim statement fails while the server
  executes it, after \<open>db.Query\<close> has returned without an error (the driver then keeps the
  error in the rows, where \<open>rows.Err()\<close> would give it, and \<open>rows.Next()\<close> is false at
  once); the order in which the claimed rows come back; for which rows \<open>rows.Scan\<close> fails;
  and for which rows the \<open>db.Exec\<close> of the terminal update fails. A statement that fails
  changes nothing in the table.
\<close>

record env =
  query_error :: "pg_error option"
  rows_error :: "pg_error option"
  emit :: "uuid \<Rightarrow> nat"
  scan_error :: "uuid \<Rightarrow> bool"
  exec_error :: "uuid \<Rightarrow> pg_error option"

text \<open>The table and the log, as one worker sees them.\<close>

type_synonym world = "table \<times> log_line list"

text \<open>
  \<open>sendNotification\<close> (lines 238-247): the notification is the log line; then the terminal
  update, whose error is logged and otherwise ignored. The struct \<open>PGCartEvent\<close> that
  \<open>rows.Scan\<close> fills has the columns of the row, so the event is the row itself.
\<close>

definition sendNotification :: "env \<Rightarrow> row \<Rightarrow> world \<Rightarrow> world" where
  "sendNotification e event w =
     (let lg = snd w @ [NOTIFY (order_type event) (card_col event)]
      in case exec_error e (id_col event) of
           Some err \<Rightarrow> (fst w, lg @ [FailedToUpdateEventStatus err])
         | None \<Rightarrow> (finalize (id_col event) (fst w), lg))"

text \<open>
  The loop \<open>for rows.Next()\<close> of \<open>process\<close> (lines 137-156). A row that scans is passed
  to \<open>sendNotification\<close>. When the scan of a row fails the error is logged and the body
  says \<open>continue\<close>; but the driver's \<open>Scan\<close> closes the rows when it fails, so the next
  \<open>rows.Next()\<close> is false and the loop is over: the rows that have not been read are
  neither notified nor finalized.
\<close>

fun rows_loop :: "env \<Rightarrow> row list \<Rightarrow> world \<Rightarrow> world" where
  "rows_loop e [] w = w"
| "rows_loop e (r # rs) w =
     (if scan_error e (id_col r) then (fst w, snd w @ [ErrorScanningRow])
      else rows_loop e rs (sendNotification e r w))"

text \<open>
  \<open>process\<close> (lines 113-157): the claim statement; on the error that \<open>db.Query\<close> returns a
  log line and return; otherwise the loop over the returned rows. When the statement fails
  during its execution the loop has no row to read, and since \<open>process\<close> never reads
  \<open>rows.Err()\<close> it returns without a log line. The \<open>time.Sleep\<close> before the query takes
  time and changes nothing. \<open>defer rows.Close()\<close> stands before the error check; the
  pool's \<open>Query\<close> returns rows in an error state along with an error, never nil, so that
  closing them does nothing.
\<close>

definition process :: "env \<Rightarrow> world \<Rightarrow> world" where
  "process e w =
     (case query_error e of
        Some err \<Rightarrow> (fst w, snd w @ [ErrorFetchingEvents err])
      | None \<Rightarrow>
         (case rows_error e of
            Some err \<Rightarrow> w
          | None \<Rightarrow>
             (let (rows, tbl) = claim (emit e) (fst w) in rows_loop e rows (tbl, snd w))))"

text \<open>
  \<open>workerEvents\<close> (lines 101-111) loops until the context is cancelled, so it need not
  return. The model runs it over a finite list of iterations, each with what the
  \<open>select\<close> finds (\<open>True\<close> when \<open>ctx.Done()\<close> is closed) and the environment of the call
  of \<open>process\<close>; when the list is used up the goroutine is still running.
\<close>

datatype goroutine = Running | Returned

fun workerEvents :: "(bool \<times> env) list \<Rightarrow> world \<Rightarrow> world \<times> goroutine" where
  "workerEvents [] w = (w, Running)"
| "workerEvents ((done, e) # cs) w =
     (if done then (w, Returned) else workerEvents cs (process e w))"




definition status_of :: "uuid \<Rightarrow> table \<Rightarrow> status option" where
  "status_of i tbl = map_option status (find (\<lambda>r. id_col r = i) tbl)"


section \<open>The HTTP endpoint\<close>

text \<open>
  A request, as far as the handler and the multiplexer look at it: the method, the path
  of the URL, and the body. \<open>json.NewDecoder(r.Body).Decode\<close> reads the first JSON value
  of the body; the body is \<open>None\<close> when it does not start with a well-formed JSON value
  (empty, truncated, not JSON), and the parsed value otherwise.
\<close>

datatype json =
    JNull
  | JBool bool
  | JNumber int
  | JString string
  | JArray "json list"
  | JObject "(string \<times> json) list"

record Request =
  Method :: string
  Path :: string
  Body :: "json option"

text \<open>
  The \<open>http.ResponseWriter\<close> of a request. \<open>Header\<close> is the header map the handler
  reads and writes through \<open>w.Header()\<close>. \<open>WriteHeader\<close> fixes the status code and the
  headers of the response: the server keeps the headers as they are at that moment
  (\<open>sentHeader\<close>), and what the handler puts into the map afterwards is not sent. A second
  \<open>WriteHeader\<close> is ignored. \<open>Write\<close> calls \<open>WriteHeader(200)\<close> if the handler has not
  written the header yet; on the first write of a response whose sent headers have no
  Content-Type the server sets the one that \<open>http.DetectContentType\<close> finds for the data,
  a function of the standard library that is a parameter here. A piece of the body is a
  JSON document written by \<open>json.NewEncoder(w).Encode\<close> or a plain text.
\<close>

datatype chunk = Json json | Plain string

record ResponseWriter =
  Header :: "(string \<times> string) list"
  wroteHeader :: bool
  StatusCode :: nat
  sentHeader :: "(string \<times> string) list"
  written :: "chunk list"

definition NewResponse :: ResponseWriter where
  "NewResponse =
     \<lparr>Header = [], wroteHeader = False, StatusCode = 0, sentHeader = [], written = []\<rparr>"

definition WriteHeader :: "nat \<Rightarrow> ResponseWriter \<Rightarrow> ResponseWriter" where
  "WriteHeader code w =
     (if wroteHeader w then w
      else w\<lparr>wroteHeader := True, StatusCode := code, sentHeader := Header w\<rparr>)"

definition Header_Add :: "string \<Rightarrow> string \<Rightarrow> ResponseWriter \<Rightarrow> ResponseWriter" where
  "Header_Add k v w = w\<lparr>Header := Header w @ [(k, v)]\<rparr>"

definition Header_Set :: "string \<Rightarrow> string \<Rightarrow> ResponseWriter \<Rightarrow> ResponseWriter" where
  "Header_Set k v w = w\<lparr>Header := filter (\<lambda>kv. fst kv \<noteq> k) (Header w) @ [(k, v)]\<rparr>"

definition Write :: "(chunk \<Rightarrow> string) \<Rightarrow> chunk \<Rightarrow> ResponseWriter \<Rightarrow> ResponseWriter" where
  "Write DetectContentType c w0 =
     (let w = WriteHeader 200 w0
      in if written w = [] \<and> ''Content-Type'' \<notin> set (map fst (sentHeader w))
         then w\<lparr>sentHeader := sentHeader w @ [(''Content-Type'', DetectContentType c)],
                written := [c]\<rparr>
         else w\<lparr>written := written w @ [c]\<rparr>)"

text \<open>
  \<open>writeJSON\<close> (lines 249-253):
  \<^verbatim>\<open>
  w.WriteHeader(status)
  w.Header().Add("Content-Type", "application/json")
  return json.NewEncoder(w).Encode(v)
  \<close>
  The callers ignore the error it returns.
\<close>

definition writeJSON ::
  "(chunk \<Rightarrow> string) \<Rightarrow> nat \<Rightarrow> json \<Rightarrow> ResponseWriter \<Rightarrow> ResponseWriter" where
  "writeJSON sniff code v w =
     Write sniff (Json v) (Header_Add ''Content-Type'' ''application/json'' (WriteHeader code w))"

text \<open>
  Decoding a JSON value into a \<open>CartEvent\<close>, as \<open>encoding/json\<close> does for a struct of five
  string fields with the tags \<open>orderType\<close>, \<open>sessionId\<close>, \<open>card\<close>, \<open>eventDate\<close> and
  \<open>websiteUrl\<close>. The event starts with every field empty. \<open>null\<close> leaves it so. The members
  of an object are taken in order: the key selects the field whose tag it equals, or else
  the first field whose tag it equals up to the case of letters (ASCII letters here); a key
  that selects no field is ignored; a string value is stored, \<open>null\<close> is skipped, any other
  value is a type error, which is reported after all members have been read. Any other
  JSON value is a type error. Nothing requires a field to be present.
\<close>

definition upper :: "char \<Rightarrow> char" where
  "upper c =
     (let n = of_char c :: nat in if 97 \<le> n \<and> n \<le> 122 then char_of (n - 32) else c)"

definition EqualFold :: "string \<Rightarrow> string \<Rightarrow> bool" where
  "EqualFold s t = (map upper s = map upper t)"

datatype field = F_OrderType | F_SessionID | F_Card | F_EventDate | F_WebsiteURL

definition fields :: "(string \<times> field) list" where
  "fields = [(''orderType'', F_OrderType), (''sessionId'', F_SessionID), (''card'', F_Card),
             (''eventDate'', F_EventDate), (''websiteUrl'', F_WebsiteURL)]"

definition field_of_key :: "string \<Rightarrow> field option" where
  "field_of_key k =
     (case map_of fields k of
        Some f \<Rightarrow> Some f
      | None \<Rightarrow> map_option snd (find (\<lambda>nf. EqualFold (fst nf) k) fields))"

fun set_field :: "field \<Rightarrow> string \<Rightarrow> CartEvent \<Rightarrow> CartEvent" where
  "set_field F_OrderType s ev = ev\<lparr>OrderType := s\<rparr>"
| "set_field F_SessionID s ev = ev\<lparr>SessionID := s\<rparr>"
| "set_field F_Card s ev = ev\<lparr>Card := s\<rparr>"
| "set_field F_EventDate s ev = ev\<lparr>EventDate := s\<rparr>"
| "set_field F_WebsiteURL s ev = ev\<lparr>WebsiteURL := s\<rparr>"

datatype decode_error = SyntaxError | UnmarshalTypeError

fun members :: "(string \<times> json) list \<Rightarrow> CartEvent \<times> bool \<Rightarrow> CartEvent \<times> bool" where
  "members [] acc = acc"
| "members ((k, v) # kvs) (ev, bad) =
     (case field_of_key k of
        None \<Rightarrow> members kvs (ev, bad)
      | Some f \<Rightarrow>
         (case v of
            JString s \<Rightarrow> members kvs (set_field f s ev, bad)
          | JNull \<Rightarrow> members kvs (ev, bad)
          | _ \<Rightarrow> members kvs (ev, True)))"

definition zero_event :: CartEvent where
  "zero_event = \<lparr>OrderType = [], SessionID = [], Card = [], EventDate = [], WebsiteURL = []\<rparr>"

definition Decode :: "json option \<Rightarrow> decode_error + CartEvent" where
  "Decode body =
     (case body of
        None \<Rightarrow> Inl SyntaxError
      | Some JNull \<Rightarrow> Inr zero_event
      | Some (JObject kvs) \<Rightarrow>
          (let (ev, bad) = members kvs (zero_event, False)
           in if bad then Inl UnmarshalTypeError else Inr ev)
      | Some _ \<Rightarrow> Inl UnmarshalTypeError)"

text \<open>
  \<open>Handler.Event\<close> (lines 163-191): 400 and \<open>{"error": "invalid method"}\<close> unless the method
  is POST; 400 and \<open>{"error": "invalid body"}\<close> when the body does not decode; then the
  INSERT, 500 and \<open>{"error": err.Error()}\<close> when it fails, and otherwise 200 with the JSON
  string "event recieved and stored". \<open>Error_text\<close> stands for \<open>err.Error()\<close>, the driver's
  message, given here in short.
\<close>

fun Error_text :: "pg_error \<Rightarrow> string" where
  "Error_text ConnFailed = ''failed to connect''"
| "Error_text BadTimestamp = ''ERROR: invalid input syntax for type timestamp (SQLSTATE 22007)''"
| "Error_text ValueTooLong = ''ERROR: value too long for type character varying (SQLSTATE 22001)''"
| "Error_text UniqueViolation = ''ERROR: duplicate key value violates unique constraint (SQLSTATE 23505)''"

definition error_body :: "string \<Rightarrow> json" where
  "error_body msg = JObject [(''error'', JString msg)]"

definition Event ::
  "(chunk \<Rightarrow> string) \<Rightarrow> pg \<Rightarrow> Request \<Rightarrow> ResponseWriter \<Rightarrow> table \<Rightarrow> ResponseWriter \<times> table" where
  "Event sniff db r w tbl =
     (if Method r \<noteq> ''POST'' then (writeJSON sniff 400 (error_body ''invalid method'') w, tbl)
      else case Decode (Body r) of
        Inl err \<Rightarrow> (writeJSON sniff 400 (error_body ''invalid body'') w, tbl)
      | Inr event \<Rightarrow>
         (case insert_event db event tbl of
            Inl err \<Rightarrow> (writeJSON sniff 500 (error_body (Error_text err)) w, tbl)
          | Inr tbl' \<Rightarrow> (writeJSON sniff 200 (JString ''event recieved and stored'') w, tbl')))"

text \<open>
  The multiplexer of \<open>main\<close> (lines 204-205) has one pattern:
  \<^verbatim>\<open>mux.HandleFunc("/event", h.Event)\<close>
  A pattern that does not end in a slash matches this path only, whatever the method; any
  other path gets the multiplexer's \<open>http.NotFound\<close>, which sets the Content-Type
  \<open>text/plain; charset=utf-8\<close> and \<open>X-Content-Type-Options: nosniff\<close>, writes the status 404
  and the line "404 page not found". Paths are taken as the multiplexer sees them after
  cleaning.
\<close>

definition NotFound :: "(chunk \<Rightarrow> string) \<Rightarrow> ResponseWriter \<Rightarrow> ResponseWriter" where
  "NotFound sniff w =
     Write sniff (Plain (''404 page not found'' @ [CHR 0x0A]))
       (WriteHeader 404
         (Header_Set ''X-Content-Type-Options'' ''nosniff''
           (Header_Set ''Content-Type'' ''text/plain; charset=utf-8'' w)))"

definition ServeHTTP ::
  "(chunk \<Rightarrow> string) \<Rightarrow> pg \<Rightarrow> Request \<Rightarrow> table \<Rightarrow> ResponseWriter \<times> table" where
  "ServeHTTP sniff db r tbl =
     (if Path r = ''/event'' then Event sniff db r NewResponse tbl
      else (NotFound sniff NewResponse, tbl))"

section \<open>Concurrent claims\<close>

text \<open>
  Several workers, of this process or another, run the claim statement against the same
  table at the same time. The store executes a claim statement in two phases, and the
  statements of other connections may run between the two. In the first phase the common
  table expression selects its rows and takes their row locks (\<open>FOR UPDATE\<close>), passing over
  the rows that another statement has locked (\<open>SKIP LOCKED\<close>). In the second phase the
  UPDATE writes the new status, the rows are returned and the statement commits, which
  releases its locks. A terminal update of a row that another statement has locked waits
  for the lock: it does not happen at that point. Workers are numbered; \<open>row_locks\<close>
  holds, for each worker whose claim statement is between its two phases, the identifiers
  it has locked.
\<close>

record store =
  cart_events :: table
  row_locks :: "(nat \<times> uuid list) list"

datatype action =
    Ins pg CartEvent
  | Lock nat
  | Upd nat "uuid \<Rightarrow> nat"
  | Fin uuid

text \<open>
  The actions: the handler's INSERT; the first phase of worker \<open>w\<close>'s claim statement
  (\<open>Lock\<close>); its second phase (\<open>Upd\<close>, with the order in which the executor returns the
  rows), which hands the batch to the worker; a terminal update. A worker has one claim
  statement at a time. An action that cannot happen in a state leaves it as it is. A run
  collects the batches handed out, each with its worker.
\<close>

definition locked_ids :: "store \<Rightarrow> uuid list" where
  "locked_ids s = concat (map snd (row_locks s))"

definition skip_locked :: "store \<Rightarrow> table" where
  "skip_locked s = filter (\<lambda>r. id_col r \<notin> set (locked_ids s)) (cart_events s)"

fun db_step :: "action \<Rightarrow> store \<Rightarrow> store \<times> (nat \<times> row list) list" where
  "db_step (Ins db ev) s = (s\<lparr>cart_events := apply_op (Insert db ev) (cart_events s)\<rparr>, [])"
| "db_step (Lock w) s =
     (if w \<in> set (map fst (row_locks s)) then (s, [])
      else (s\<lparr>row_locks := (w, map id_col (cte (skip_locked s))) # row_locks s\<rparr>, []))"
| "db_step (Upd w em) s =
     (case map_of (row_locks s) w of
        None \<Rightarrow> (s, [])
      | Some ids \<Rightarrow>
          (let rows = set_processing ids (cart_events s)
           in (s\<lparr>cart_events := rows, row_locks := filter (\<lambda>p. fst p \<noteq> w) (row_locks s)\<rparr>,
               [(w, returning em ids rows)])))"
| "db_step (Fin i) s =
     (if i \<in> set (locked_ids s) then (s, [])
      else (s\<lparr>cart_events := finalize i (cart_events s)\<rparr>, []))"

fun db_run :: "action list \<Rightarrow> store \<Rightarrow> store \<times> (nat \<times> row list) list" where
  "db_run [] s = (s, [])"
| "db_run (a # as) s =
     (let (s1, out1) = db_step a s; (s2, out2) = db_run as s1 in (s2, out1 @ out2))"

definition returned_ids :: "(nat \<times> row list) list \<Rightarrow> uuid list" where
  "returned_ids out = concat (map (\<lambda>p. map id_col (snd p)) out)"

text \<open>
  The invariant of the runs: the primary key holds, no identifier is locked twice, locked
  rows are pending, returned rows are not pending any more, and no identifier has been
  returned twice.
\<close>

definition claim_inv :: "store \<Rightarrow> uuid list \<Rightarrow> bool" where
  "claim_inv s ret =
     (primary_key (cart_events s)
      \<and> distinct (locked_ids s)
      \<and> (\<forall>i \<in> set (locked_ids s). status_of i (cart_events s) = Some Pending)
      \<and> (\<forall>i \<in> set ret. status_of i (cart_events s) = Some Processing
                           \<or> status_of i (cart_events s) = Some Processed)
      \<and> distinct ret)"

section \<open>The life of the process: \<open>NewPool\<close>, the workers, the signal goroutine\<close>

text \<open>
  \<open>main\<close> (lines 193-236) starts the pool, starts a goroutine that waits for SIGINT or
  SIGTERM, and serves HTTP. The goroutines run interleaved, one step at a time.

  A worker (\<open>workerEvents\<close>, \<open>process\<close>) is at its \<open>select\<close>, in the \<open>time.Sleep\<close> of
  \<open>process\<close>, in the claim query, in the loop over the returned rows with some rows left,
  inside \<open>sendNotification\<close> for one row, or has returned (the deferred \<open>wg.Done()\<close> has
  run). The query returns at most 10 rows; its error is the case of no row. A scan that
  fails closes the rows, so that no row is left for the loop.

  The signal goroutine (lines 212-230) is blocked on the signal channel, then executes
  \<open>cancel()\<close>, \<open>pool.wg.Wait()\<close>, \<open>server.Shutdown(ctx1)\<close> and \<open>db.Close()\<close> in this order;
  \<open>wg.Wait()\<close> returns only when the counter is zero.

  The main goroutine is in \<open>server.ListenAndServe()\<close>; this call returns an error when the
  server fails or after \<open>Shutdown\<close> has been called, and then \<open>log.Fatal\<close> ends the process
  with all its goroutines.
\<close>

datatype worker_pc = AtSelect | Sleeping | Querying | InRows nat | Notifying nat | Exited

datatype signal_pc = AwaitSignal | AtCancel | AtWait | AtShutdown | AtClose | AtEnd

record proc =
  ctx_done :: bool
  wg :: nat
  workers :: "worker_pc list"
  sigpc :: signal_pc
  serving :: bool
  db_open :: bool
  alive :: bool

text \<open>
  One step of one goroutine: the operating system delivers the signal (the receive from
  the channel completes); the signal goroutine executes its next statement; worker \<open>i\<close>
  executes its next step, where \<open>n\<close> is the number of rows its query returns and \<open>ok\<close>
  tells whether the scan of its next row succeeds; \<open>ListenAndServe\<close> returns and \<open>main\<close>
  calls \<open>log.Fatal\<close>. A step that cannot be taken leaves the state as it is: \<open>wg.Wait()\<close>
  with a counter that is not zero, any step after the process has ended.
\<close>

datatype move = Signal | SignalStep | WorkerStep nat nat bool | ServeReturns

text \<open>
  The process once \<open>main\<close> has called \<open>NewPool(ctx, numWorkers, db)\<close> (lines 86-99:
  \<open>pool.wg.Add(numWorkers)\<close>, then one goroutine \<open>workerEvents\<close> per worker), has started
  the signal goroutine and serves. \<open>main\<close> passes \<open>WorkerCount\<close>, which is 8.
\<close>

definition NewPool :: "nat \<Rightarrow> proc" where
  "NewPool numWorkers =
     \<lparr>ctx_done = False, wg = numWorkers, workers = replicate numWorkers AtSelect,
      sigpc = AwaitSignal, serving = True, db_open = True, alive = True\<rparr>"

definition WorkerCount :: nat where
  "WorkerCount = 8"

fun worker_step :: "bool \<Rightarrow> nat \<Rightarrow> bool \<Rightarrow> worker_pc \<Rightarrow> worker_pc" where
  "worker_step done n ok AtSelect = (if done then Exited else Sleeping)"
| "worker_step done n ok Sleeping = Querying"
| "worker_step done n ok Querying = InRows (min n 10)"
| "worker_step done n ok (InRows 0) = AtSelect"
| "worker_step done n ok (InRows (Suc k)) = (if ok then Notifying k else InRows 0)"
| "worker_step done n ok (Notifying k) = InRows k"
| "worker_step done n ok Exited = Exited"

fun signal_step :: "proc \<Rightarrow> proc" where
  "signal_step s =
     (case sigpc s of
        AwaitSignal \<Rightarrow> s
      | AtCancel \<Rightarrow> s\<lparr>ctx_done := True, sigpc := AtWait\<rparr>
      | AtWait \<Rightarrow> if wg s = 0 then s\<lparr>sigpc := AtShutdown\<rparr> else s
      | AtShutdown \<Rightarrow> s\<lparr>serving := False, sigpc := AtClose\<rparr>
      | AtClose \<Rightarrow> s\<lparr>db_open := False, sigpc := AtEnd\<rparr>
      | AtEnd \<Rightarrow> s)"

fun pstep :: "move \<Rightarrow> proc \<Rightarrow> proc" where
  "pstep Signal s =
     (if alive s \<and> sigpc s = AwaitSignal then s\<lparr>sigpc := AtCancel\<rparr> else s)"
| "pstep SignalStep s = (if alive s then signal_step s else s)"
| "pstep (WorkerStep i n ok) s =
     (if alive s \<and> i < length (workers s) then
        (let pc = workers s ! i; pc' = worker_step (ctx_done s) n ok pc
         in s\<lparr>workers := (workers s)[i := pc'],
               wg := (if pc \<noteq> Exited \<and> pc' = Exited then wg s - 1 else wg s)\<rparr>)
      else s)"
| "pstep ServeReturns s = (if alive s then s\<lparr>serving := False, alive := False\<rparr> else s)"

definition prun :: "move list \<Rightarrow> proc \<Rightarrow> proc" where
  "prun ms s = fold pstep ms s"

text \<open>
  The workers that have not returned, the pool with no such worker, and the invariant of
  the reachable states.
\<close>

definition active :: "proc \<Rightarrow> nat" where
  "active s = length (filter (\<lambda>pc. pc \<noteq> Exited) (workers s))"

definition drained :: "proc \<Rightarrow> bool" where
  "drained s = list_all (\<lambda>pc. pc = Exited) (workers s)"

definition pinv :: "proc \<Rightarrow> bool" where
  "pinv s =
     (wg s = active s
      \<and> (sigpc s \<in> {AtWait, AtShutdown, AtClose, AtEnd} \<longrightarrow> ctx_done s)
      \<and> (sigpc s \<in> {AtShutdown, AtClose, AtEnd} \<longrightarrow> drained s)
      \<and> (sigpc s \<in> {AwaitSignal, AtCancel, AtWait, AtShutdown} \<longrightarrow> alive s \<longrightarrow> serving s)
      \<and> (sigpc s \<in> {AtClose, AtEnd} \<longrightarrow> \<not> serving s)
      \<and> (db_open s \<longleftrightarrow> sigpc s \<noteq> AtEnd))"

section \<open>Sample data\<close>

text \<open>
  The request of the README; a store that accepts the README's date, draws the identifier
  \<open>i\<close> and reads the time \<open>100 - i\<close> on its clock; the table of twelve pending events
  that twelve INSERTs leave when the identifiers are drawn in descending order (so the row
  of identifier 12 is the oldest, created at time 88, and the row of identifier 1 the
  newest, created at time 99); an executor that returns rows in heap order; an environment
  in which the scan of identifier 2 and the terminal update of identifier 3 fail, and one
  in which only the scan of identifier 2 fails; the sample table with no row locked, and
  what happens between the two phases of a claim statement of worker 2 (an INSERT, and the
  second phase of worker 1); an interleaving of two workers and the handler; and two runs
  of the process.
\<close>

definition sample_event :: CartEvent where
  "sample_event =
     \<lparr>OrderType = ''Purchase'', SessionID = ''29827525-06c9-4b1e-9d9b-7c4584e82f56'',
      Card = ''4433**1409'', EventDate = ''2023-01-04 13:44:52.835626 +00:00'',
      WebsiteURL = ''https://amazon.com''\<rparr>"

definition readme_timestamp_in :: "string \<Rightarrow> timestamp option" where
  "readme_timestamp_in s =
     (if s = ''2023-01-04 13:44:52.835626 +00:00'' then Some 726155092835626 else None)"

definition sample_pg :: "uuid \<Rightarrow> pg" where
  "sample_pg i = \<lparr>conn_ok = True, uuid_generate_v4 = i, current_timestamp = 100 - uint i,
                  timestamp_in = readme_timestamp_in\<rparr>"

definition readme_body :: json where
  "readme_body = JObject
     [(''orderType'', JString ''Purchase''),
      (''sessionId'', JString ''29827525-06c9-4b1e-9d9b-7c4584e82f56''),
      (''card'', JString ''4433**1409''),
      (''eventDate'', JString ''2023-01-04 13:44:52.835626 +00:00''),
      (''websiteUrl'', JString ''https://amazon.com'')]"

definition body_without_orderType :: json where
  "body_without_orderType = JObject
     [(''sessionId'', JString ''29827525-06c9-4b1e-9d9b-7c4584e82f56''),
      (''card'', JString ''4433**1409''),
      (''eventDate'', JString ''2023-01-04 13:44:52.835626 +00:00''),
      (''websiteUrl'', JString ''https://amazon.com'')]"

definition text_plain :: "chunk \<Rightarrow> string" where
  "text_plain c = ''text/plain; charset=utf-8''"

definition sample_row :: "uuid \<Rightarrow> status \<Rightarrow> row" where
  "sample_row i s =
     \<lparr>id_col = i, order_type = ''Purchase'',
      session_id = ''29827525-06c9-4b1e-9d9b-7c4584e82f56'', card_col = ''4433**1409'',
      event_date = 726155092835626, website_url = ''https://amazon.com'',
      status = s, created_at = 100 - uint i\<rparr>"


definition sample_table :: table where
  "sample_table = map (\<lambda>i. sample_row i Pending) [12, 11, 10, 9, 8, 7, 6, 5, 4, 3, 2, 1]"

definition heap_scan :: "uuid \<Rightarrow> nat" where
  "heap_scan i = 0"


definition scan_env :: env where
  "scan_env = \<lparr>query_error = None, rows_error = None, emit = heap_scan,
                scan_error = (\<lambda>i. i = 2), exec_error = (\<lambda>i. None)\<rparr>"



definition interleaved :: "action list" where
  "interleaved =
     [Lock 1, Lock 2, Ins (sample_pg 13) sample_event, Upd 2 heap_scan, Upd 1 unat, Fin 1,
      Lock 1, Upd 1 unat]"

definition drain_moves :: "move list" where
  "drain_moves =
     [Signal, SignalStep] @ map (\<lambda>i. WorkerStep i 0 True) [0..<8] @ [SignalStep]"


section \<open>Basic facts about the store operations\<close>

lemma set_cte_subset: "set (cte tbl) \<subseteq> set (pending_rows tbl)"
  unfolding cte_def using set_take_subset [of 10 "sort_key id_col (pending_rows tbl)"] by simp

lemma cte_pending: "r \<in> set (cte tbl) \<Longrightarrow> status r = Pending \<and> r \<in> set tbl"
  using set_cte_subset [of tbl] by (auto simp: pending_rows_def)

lemma length_cte: "length (cte tbl) \<le> 10"
  by (simp add: cte_def)

lemma map_id_set_processing [simp]: "map id_col (set_processing ids tbl) = map id_col tbl"
  by (simp add: set_processing_def)

lemma length_set_processing [simp]: "length (set_processing ids tbl) = length tbl"
  by (simp add: set_processing_def)

lemma map_id_finalize [simp]: "map id_col (finalize i tbl) = map id_col tbl"
  by (simp add: finalize_def)

lemma length_finalize [simp]: "length (finalize i tbl) = length tbl"
  by (simp add: finalize_def)

lemma primary_key_row_eq:
  "primary_key tbl \<Longrightarrow> r \<in> set tbl \<Longrightarrow> r' \<in> set tbl \<Longrightarrow> id_col r = id_col r' \<Longrightarrow> r = r'"
  unfolding primary_key_def by (metis distinct_map inj_onD)

lemma pending_after_set_processing:
  "r \<in> set (pending_rows (set_processing ids tbl)) \<Longrightarrow> id_col r \<notin> set ids \<and> r \<in> set tbl"
  by (auto simp: pending_rows_def set_processing_def split: if_splits)

lemma set_returning:
  "set (returning em ids tbl) = {r \<in> set tbl. id_col r \<in> set ids}"
  by (auto simp: returning_def)

lemma length_returning:
  "length (returning em ids tbl) = length (filter (\<lambda>r. id_col r \<in> set ids) tbl)"
  by (simp add: returning_def)

lemma claim_ids_disjoint:
  assumes "claim e1 tbl = (b1, t1)" "claim e2 t1 = (b2, t2)"
  shows "set (map id_col b1) \<inter> set (map id_col b2) = {}"
proof -
  let ?ids1 = "map id_col (cte tbl)"
  let ?ids2 = "map id_col (cte t1)"
  from assms have t1: "t1 = set_processing ?ids1 tbl" and b1: "b1 = returning e1 ?ids1 t1"
    and b2: "b2 = returning e2 ?ids2 t2"
    by (auto simp: claim_def Let_def)
  have "set (map id_col b1) \<subseteq> set ?ids1" using b1 by (auto simp: set_returning)
  moreover have "set (map id_col b2) \<subseteq> set ?ids2" using b2 by (auto simp: set_returning)
  moreover have "set ?ids2 \<inter> set ?ids1 = {}"
  proof -
    { fix r assume "r \<in> set (cte t1)"
      then have "r \<in> set (pending_rows t1)" using set_cte_subset by blast
      then have "id_col r \<notin> set ?ids1"
        unfolding t1 by (rule pending_after_set_processing [THEN conjunct1]) }
    then show ?thesis by auto
  qed
  ultimately show ?thesis by blast
qed

lemma claimed_ids_were_pending:
  assumes pk: "primary_key tbl" and r: "r \<in> set tbl"
    and i: "id_col r \<in> set (map id_col (cte tbl))"
  shows "status r = Pending" and "r \<in> set (cte tbl)"
proof -
  from i obtain r' where r': "r' \<in> set (cte tbl)" "id_col r' = id_col r" by auto
  with cte_pending [of r' tbl] have "r' \<in> set tbl" "status r' = Pending" by auto
  with primary_key_row_eq [OF pk r \<open>r' \<in> set tbl\<close>] r'
  show "status r = Pending" and "r \<in> set (cte tbl)" by auto
qed

lemma claim_length_le_pending:
  assumes pk: "primary_key tbl" and c: "claim em tbl = (b, t)"
  shows "length b \<le> length (pending_rows tbl)"
proof -
  let ?ids = "map id_col (cte tbl)"
  from c have b: "b = returning em ?ids (set_processing ?ids tbl)"
    by (auto simp: claim_def Let_def)
  have "length b = length (filter (\<lambda>r. id_col r \<in> set ?ids) tbl)"
    unfolding b length_returning set_processing_def filter_map
    by (simp add: comp_def if_distrib cong: if_cong)
  also have "\<dots> \<le> length (filter (\<lambda>r. status r = Pending) tbl)"
  proof -
    have "\<forall>r \<in> set tbl. id_col r \<in> set ?ids \<longrightarrow> status r = Pending"
      using claimed_ids_were_pending(1) [OF pk] by blast
    then show ?thesis
      by (metis (mono_tags, lifting) filter_cong filter_filter length_filter_le)
  qed
  finally show ?thesis by (simp add: pending_rows_def)
qed

lemma primary_key_claim: "primary_key tbl \<Longrightarrow> primary_key (snd (claim em tbl))"
  by (simp add: claim_def Let_def primary_key_def)

section \<open>Claiming twice in a row\<close>

text \<open>
  C2. For every table that respects the primary key, two claim statements executed one
  right after the other (no INSERT in between) return batches with no identifier, hence no
  row, in common, and the second batch has at most as many rows as are pending after the
  first claim.
\<close>

theorem reclaim_disjoint:
  assumes "primary_key tbl" and "claim e1 tbl = (b1, t1)" and "claim e2 t1 = (b2, t2)"
  shows "set (map id_col b1) \<inter> set (map id_col b2) = {} \<and> set b1 \<inter> set b2 = {}
         \<and> length b2 \<le> length (pending_rows t1)"
proof -
  have d: "set (map id_col b1) \<inter> set (map id_col b2) = {}"
    using assms(2,3) by (rule claim_ids_disjoint)
  then have "set b1 \<inter> set b2 = {}" by auto
  moreover have "primary_key t1" using primary_key_claim [OF assms(1), of e1] assms(2) by simp
  then have "length b2 \<le> length (pending_rows t1)"
    using assms(3) by (rule claim_length_le_pending)
  ultimately show ?thesis using d by blast
qed

text \<open>
  Twelve pending events: the first claim returns the ten smallest identifiers, the second
  the remaining two.
\<close>

theorem reclaim_disjoint_witness:
  "primary_key sample_table
   \<and> map id_col (fst (claim unat sample_table)) = [1, 2, 3, 4, 5, 6, 7, 8, 9, 10]
   \<and> map id_col (fst (claim unat (snd (claim unat sample_table)))) = [11, 12]
   \<and> set (map id_col (fst (claim unat sample_table)))
       \<inter> set (map id_col (fst (claim unat (snd (claim unat sample_table))))) = {}
   \<and> length (fst (claim unat (snd (claim unat sample_table))))
       \<le> length (pending_rows (snd (claim unat sample_table)))"
proof -
  have h1: "primary_key sample_table" by code_simp
  have h2: "claim unat sample_table
      = (fst (claim unat sample_table), snd (claim unat sample_table))" by simp
  have h3: "claim unat (snd (claim unat sample_table))
      = (fst (claim unat (snd (claim unat sample_table))),
         snd (claim unat (snd (claim unat sample_table))))" by simp
  have v1: "map id_col (fst (claim unat sample_table)) = [1, 2, 3, 4, 5, 6, 7, 8, 9, 10]"
    by code_simp
  have v2: "map id_col (fst (claim unat (snd (claim unat sample_table)))) = [11, 12]"
    by code_simp
  from reclaim_disjoint [OF h1 h2 h3] h1 v1 v2 show ?thesis by blast
qed

section \<open>Rows by position\<close>

lemma nth_set_processing:
  "i < length tbl \<Longrightarrow> set_processing ids tbl ! i =
     (if id_col (tbl ! i) \<in> set ids then (tbl ! i)\<lparr>status := Processing\<rparr> else tbl ! i)"
  by (simp add: set_processing_def)

lemma nth_finalize:
  "j < length tbl \<Longrightarrow> finalize i tbl ! j =
     (if id_col (tbl ! j) = i then (tbl ! j)\<lparr>status := Processed\<rparr> else tbl ! j)"
  by (simp add: finalize_def)

lemma insert_event_Inr:
  "insert_event db ev tbl = Inr t \<Longrightarrow>
     \<exists>r. t = tbl @ [r] \<and> status r = Pending \<and> id_col r = uuid_generate_v4 db
        \<and> id_col r \<notin> set (map id_col tbl)"
  by (auto simp: insert_event_def split: if_splits option.splits)

lemma rank_le_Processed: "rank s \<le> 2"
  by (cases s) simp_all

section \<open>The status chain\<close>

text \<open>
  C4. On a table that respects the primary key, each store operation (the INSERT of the
  handler, the claim statement, the terminal update) keeps every existing row in its place
  with all its columns but the status, and never moves a status backwards in the chain
  pending, processing, processed: an INSERT changes no existing status and the rows it adds
  are pending, the claim changes a status only from pending to processing, the terminal
  update changes a status only to processed.
\<close>

theorem status_chain:
  assumes pk: "primary_key tbl"
  shows "length tbl \<le> length (apply_op a tbl)
    \<and> (\<forall>i<length tbl.
          apply_op a tbl ! i = (tbl ! i)\<lparr>status := status (apply_op a tbl ! i)\<rparr>
        \<and> rank (status (tbl ! i)) \<le> rank (status (apply_op a tbl ! i))
        \<and> (case a of
             Insert db ev \<Rightarrow> status (apply_op a tbl ! i) = status (tbl ! i)
           | Claim em \<Rightarrow> status (apply_op a tbl ! i) = status (tbl ! i)
               \<or> status (tbl ! i) = Pending \<and> status (apply_op a tbl ! i) = Processing
           | Finalize k \<Rightarrow> status (apply_op a tbl ! i) = status (tbl ! i)
               \<or> status (apply_op a tbl ! i) = Processed))
    \<and> (\<forall>i. length tbl \<le> i \<and> i < length (apply_op a tbl)
          \<longrightarrow> status (apply_op a tbl ! i) = Pending)"
proof (cases a)
  case (Insert db ev)
  show ?thesis
  proof (cases "insert_event db ev tbl")
    case (Inl e)
    then show ?thesis using Insert by auto
  next
    case (Inr t)
    from insert_event_Inr [OF Inr] obtain r where "t = tbl @ [r]" "status r = Pending" by blast
    then show ?thesis using Insert Inr by (auto simp: nth_append)
  qed
next
  case (Claim em)
  let ?ids = "map id_col (cte tbl)"
  have t: "apply_op a tbl = set_processing ?ids tbl" using Claim by (simp add: claim_def Let_def)
  have "\<And>i. i < length tbl \<Longrightarrow> id_col (tbl ! i) \<in> set ?ids \<Longrightarrow> status (tbl ! i) = Pending"
    using claimed_ids_were_pending(1) [OF pk] nth_mem by blast
  then show ?thesis unfolding t using Claim by (auto simp: nth_set_processing)
next
  case (Finalize k)
  then show ?thesis by (auto simp: nth_finalize rank_le_Processed)
qed

text \<open>
  On the sample table: the row of identifier 1 (the last in the heap) goes from pending to
  processing by a claim and from processing to processed by its terminal update.
\<close>

theorem status_chain_witness:
  "primary_key sample_table
   \<and> status (sample_table ! 11) = Pending
   \<and> status (apply_op (Claim unat) sample_table ! 11) = Processing
   \<and> rank (status (sample_table ! 11)) \<le> rank (status (apply_op (Claim unat) sample_table ! 11))
   \<and> status (apply_op (Finalize 1) (apply_op (Claim unat) sample_table) ! 11) = Processed
   \<and> rank (status (apply_op (Claim unat) sample_table ! 11))
       \<le> rank (status (apply_op (Finalize 1) (apply_op (Claim unat) sample_table) ! 11))"
proof -
  have h1: "primary_key sample_table" by code_simp
  have h2: "primary_key (apply_op (Claim unat) sample_table)"
    using primary_key_claim [OF h1, of unat] by simp
  have l: "(11::nat) < length sample_table" by (simp add: sample_table_def)
  have l2: "(11::nat) < length (apply_op (Claim unat) sample_table)" by (simp add: claim_def Let_def sample_table_def)
  have v1: "status (sample_table ! 11) = Pending" by code_simp
  have v2: "status (apply_op (Claim unat) sample_table ! 11) = Processing" by code_simp
  have v3: "status (apply_op (Finalize 1) (apply_op (Claim unat) sample_table) ! 11) = Processed"
    by code_simp
  from status_chain [OF h1, of "Claim unat"] l
  have a: "rank (status (sample_table ! 11)) \<le> rank (status (apply_op (Claim unat) sample_table ! 11))"
    by blast
  from status_chain [OF h2, of "Finalize 1"] l2
  have b: "rank (status (apply_op (Claim unat) sample_table ! 11))
       \<le> rank (status (apply_op (Finalize 1) (apply_op (Claim unat) sample_table) ! 11))"
    by blast
  from h1 v1 v2 v3 a b show ?thesis by blast
qed

section \<open>Errors inside the worker\<close>

lemma status_of_Nil [simp]: "status_of i [] = None"
  by (simp add: status_of_def)

lemma status_of_Cons [simp]:
  "status_of i (r # tbl) = (if id_col r = i then Some (status r) else status_of i tbl)"
  by (simp add: status_of_def)


lemma status_of_finalize:
  "status_of i (finalize j tbl) =
     (if i = j then map_option (\<lambda>s. Processed) (status_of i tbl) else status_of i tbl)"
  by (induction tbl) (auto simp: finalize_def)

lemma status_of_fold_finalize:
  "status_of i (fold finalize js tbl) =
     (if i \<in> set js then map_option (\<lambda>s. Processed) (status_of i tbl) else status_of i tbl)"
  by (induction js arbitrary: tbl) (auto simp: status_of_finalize option.map_comp comp_def)

lemma status_of_set_processing:
  "status_of i (set_processing ids tbl) =
     (if i \<in> set ids then map_option (\<lambda>s. Processing) (status_of i tbl) else status_of i tbl)"
  by (induction tbl) (auto simp: set_processing_def)


lemma workerEvents_running:
  "\<forall>c \<in> set cs. \<not> fst c \<Longrightarrow> workerEvents cs w = (fold (\<lambda>c. process (snd c)) cs w, Running)"
proof (induction cs arbitrary: w)
  case Nil
  then show ?case by simp
next
  case (Cons c cs)
  obtain d e where c: "c = (d, e)" by (cases c)
  with Cons.prems have "\<not> d" and "\<forall>c \<in> set cs. \<not> fst c" by simp_all
  with Cons.IH [of "process e w"] c show ?case by simp
qed

text \<open>
  C9 fails in the program at two places. The claim wants a row whose scan fails to be
  logged and that row alone to be skipped, and a failing claim query to be logged. The loop
  does say \<open>continue\<close> after a failed scan, but the failed scan has closed the rows: on the
  sample table, with the rows returned in the order 10, 9, ..., 1 and the scan of
  identifier 2 failing, the rows 10 to 3 are notified and processed, the error is logged,
  and the row of identifier 1, whose scan would succeed, is never read: it is not notified
  and stays processing like the row of identifier 2. And when the claim statement fails
  during its execution, \<open>process\<close> returns without a log line.
\<close>

theorem scan_error_ends_batch:
  "map id_col (fst (claim (emit scan_env) sample_table)) = [10, 9, 8, 7, 6, 5, 4, 3, 2, 1]
   \<and> scan_error scan_env 2 \<and> \<not> scan_error scan_env 1
   \<and> snd (process scan_env (sample_table, [])) =
        [NOTIFY ''Purchase'' ''4433**1409'', NOTIFY ''Purchase'' ''4433**1409'',
         NOTIFY ''Purchase'' ''4433**1409'', NOTIFY ''Purchase'' ''4433**1409'',
         NOTIFY ''Purchase'' ''4433**1409'', NOTIFY ''Purchase'' ''4433**1409'',
         NOTIFY ''Purchase'' ''4433**1409'', NOTIFY ''Purchase'' ''4433**1409'',
         ErrorScanningRow]
   \<and> status_of 3 (fst (process scan_env (sample_table, []))) = Some Processed
   \<and> status_of 2 (fst (process scan_env (sample_table, []))) = Some Processing
   \<and> status_of 1 (fst (process scan_env (sample_table, []))) = Some Processing
   \<and> process (scan_env\<lparr>rows_error := Some ConnFailed\<rparr>) (sample_table, [])
        = (sample_table, [])"
proof -
  have 1: "map id_col (fst (claim (emit scan_env) sample_table))
      = [10, 9, 8, 7, 6, 5, 4, 3, 2, 1]" by code_simp
  have 2: "scan_error scan_env 2 \<and> \<not> scan_error scan_env 1" by (simp add: scan_env_def)
  have 3: "snd (process scan_env (sample_table, [])) =
        [NOTIFY ''Purchase'' ''4433**1409'', NOTIFY ''Purchase'' ''4433**1409'',
         NOTIFY ''Purchase'' ''4433**1409'', NOTIFY ''Purchase'' ''4433**1409'',
         NOTIFY ''Purchase'' ''4433**1409'', NOTIFY ''Purchase'' ''4433**1409'',
         NOTIFY ''Purchase'' ''4433**1409'', NOTIFY ''Purchase'' ''4433**1409'',
         ErrorScanningRow]" by code_simp
  have 4: "status_of 3 (fst (process scan_env (sample_table, []))) = Some Processed"
    by code_simp
  have 5: "status_of 2 (fst (process scan_env (sample_table, []))) = Some Processing"
    by code_simp
  have 6: "status_of 1 (fst (process scan_env (sample_table, []))) = Some Processing"
    by code_simp
  have 7: "process (scan_env\<lparr>rows_error := Some ConnFailed\<rparr>) (sample_table, [])
        = (sample_table, [])"
    by (simp add: process_def scan_env_def)
  from 1 2 3 4 5 6 7 show ?thesis by blast
qed

section \<open>Responses of the HTTP endpoint\<close>

lemma writeJSON_fresh:
  "writeJSON sniff code v NewResponse =
     \<lparr>Header = [(''Content-Type'', ''application/json'')], wroteHeader = True, StatusCode = code,
      sentHeader = [(''Content-Type'', sniff (Json v))], written = [Json v]\<rparr>"
  by (simp add: writeJSON_def Write_def WriteHeader_def Header_Add_def NewResponse_def)

lemma NotFound_fresh:
  "NotFound sniff NewResponse =
     \<lparr>Header = [(''Content-Type'', ''text/plain; charset=utf-8''),
                 (''X-Content-Type-Options'', ''nosniff'')],
      wroteHeader = True, StatusCode = 404,
      sentHeader = [(''Content-Type'', ''text/plain; charset=utf-8''),
                 (''X-Content-Type-Options'', ''nosniff'')],
      written = [Plain (''404 page not found'' @ [CHR 0x0A])]\<rparr>"
  by (simp add: NotFound_def Write_def WriteHeader_def Header_Set_def NewResponse_def)

lemma Event_written:
  "\<exists>code v. fst (Event sniff db r NewResponse tbl) = writeJSON sniff code v NewResponse"
  by (auto simp: Event_def split: sum.splits)

text \<open>
  C10. \<open>writeJSON\<close> calls \<open>WriteHeader\<close> before it adds the Content-Type header, so the
  header it adds is never among the headers sent: for every request, provided content
  sniffing never answers application/json (Go's \<open>DetectContentType\<close> knows no JSON
  signature), the response carries no header Content-Type: application/json; a response
  of the handler has a JSON body, the sniffed Content-Type on the wire, and
  application/json only in the handler's own header map.
\<close>

theorem content_type_never_json:
  assumes "\<forall>c. sniff c \<noteq> ''application/json''"
  shows "(''Content-Type'', ''application/json'')
           \<notin> set (sentHeader (fst (ServeHTTP sniff db r tbl)))
    \<and> (Path r = ''/event'' \<longrightarrow>
         (\<exists>v. written (fst (ServeHTTP sniff db r tbl)) = [Json v]
            \<and> sentHeader (fst (ServeHTTP sniff db r tbl)) = [(''Content-Type'', sniff (Json v))]
            \<and> Header (fst (ServeHTTP sniff db r tbl)) = [(''Content-Type'', ''application/json'')]))"
proof (cases "Path r = ''/event''")
  case True
  obtain code v where "fst (Event sniff db r NewResponse tbl) = writeJSON sniff code v NewResponse"
    using Event_written by blast
  then have "fst (ServeHTTP sniff db r tbl) = writeJSON sniff code v NewResponse"
    using True by (simp add: ServeHTTP_def)
  then show ?thesis using assms by (auto simp: writeJSON_fresh)
next
  case False
  then have "fst (ServeHTTP sniff db r tbl) = NotFound sniff NewResponse"
    by (simp add: ServeHTTP_def)
  then show ?thesis using False by (simp add: NotFound_fresh)
qed

theorem content_type_never_json_witness:
  "text_plain (Json (JString ''event recieved and stored'')) \<noteq> ''application/json''
   \<and> (''Content-Type'', ''application/json'')
        \<notin> set (sentHeader (fst (ServeHTTP text_plain (sample_pg 1)
              \<lparr>Method = ''POST'', Path = ''/event'', Body = Some readme_body\<rparr> [])))
   \<and> sentHeader (fst (ServeHTTP text_plain (sample_pg 1)
              \<lparr>Method = ''POST'', Path = ''/event'', Body = Some readme_body\<rparr> []))
       = [(''Content-Type'', ''text/plain; charset=utf-8'')]
   \<and> StatusCode (fst (ServeHTTP text_plain (sample_pg 1)
              \<lparr>Method = ''POST'', Path = ''/event'', Body = Some readme_body\<rparr> [])) = 200"
proof -
  have h: "\<forall>c. text_plain c \<noteq> ''application/json''" by (simp add: text_plain_def)
  have d: "Decode (Some readme_body) = Inr sample_event" by code_simp
  have i: "insert_event (sample_pg 1) sample_event [] \<noteq> Inl e" for e
    by (simp add: insert_event_def sample_pg_def sample_event_def readme_timestamp_in_def varchar_def)
  have s: "StatusCode (fst (ServeHTTP text_plain (sample_pg 1)
              \<lparr>Method = ''POST'', Path = ''/event'', Body = Some readme_body\<rparr> [])) = 200"
    using d i by (simp add: ServeHTTP_def Event_def writeJSON_fresh split: sum.splits)
  have t: "sentHeader (fst (ServeHTTP text_plain (sample_pg 1)
              \<lparr>Method = ''POST'', Path = ''/event'', Body = Some readme_body\<rparr> []))
       = [(''Content-Type'', ''text/plain; charset=utf-8'')]"
    using d i by (simp add: ServeHTTP_def Event_def writeJSON_fresh text_plain_def split: sum.splits)
  from content_type_never_json [OF h, of "sample_pg 1"
      "\<lparr>Method = ''POST'', Path = ''/event'', Body = Some readme_body\<rparr>" "[]"] h s t
  show ?thesis by simp
qed

text \<open>
  C7. The README documents the endpoint as POST /api/v1/event, but \<open>main\<close> registers the
  handler under the pattern /event only: the README's own request is answered 404 by the
  multiplexer and nothing is stored.
\<close>

theorem documented_path_not_found:
  "ServeHTTP sniff db \<lparr>Method = ''POST'', Path = ''/api/v1/event'', Body = Some readme_body\<rparr> tbl
     = (NotFound sniff NewResponse, tbl)
   \<and> StatusCode (NotFound sniff NewResponse) = 404
   \<and> written (NotFound sniff NewResponse) = [Plain (''404 page not found'' @ [CHR 0x0A])]"
  by (simp add: ServeHTTP_def NotFound_fresh)

section \<open>What the handler checks\<close>

lemma members_strings:
  "\<forall>kv \<in> set kvs. \<exists>s. snd kv = JString s \<Longrightarrow> snd (members kvs (ev, bad)) = bad"
proof (induction kvs arbitrary: ev)
  case Nil
  then show ?case by simp
next
  case (Cons kv kvs)
  obtain k v where kv: "kv = (k, v)" by (cases kv)
  from Cons.prems kv obtain s where v: "v = JString s" by auto
  from Cons.prems have "\<forall>kv \<in> set kvs. \<exists>s. snd kv = JString s" by simp
  from Cons.IH [OF this] kv v show ?case by (simp split: option.splits)
qed

lemma Decode_strings:
  assumes "\<forall>kv \<in> set kvs. \<exists>s. snd kv = JString s"
  shows "Decode (Some (JObject kvs)) = Inr (fst (members kvs (zero_event, False)))"
proof -
  have "snd (members kvs (zero_event, False)) = False" using assms by (rule members_strings)
  then show ?thesis by (auto simp: Decode_def split: prod.splits)
qed

lemma insert_event_row:
  "insert_event db ev tbl = Inr t \<Longrightarrow>
     \<exists>r. t = tbl @ [r] \<and> status r = Pending
        \<and> varchar 30 (OrderType ev) = Some (order_type r) \<and> session_id r = SessionID ev
        \<and> varchar 16 (Card ev) = Some (card_col r)
        \<and> timestamp_in db (EventDate ev) = Some (event_date r)
        \<and> website_url r = WebsiteURL ev"
  by (auto simp: insert_event_def split: if_splits option.splits)

text \<open>
  C8, as the code has it. The handler checks the method and that the body decodes, and
  nothing else: there is no check that a field is present. A request that is not a POST or
  whose body does not decode is answered 400 and nothing is inserted. A JSON object whose
  members are strings always decodes, whatever fields it carries, the absent fields staying
  empty strings. A decoded payload is handed to the INSERT as it is: when the store accepts
  it the answer is 200 and the table has one more row, pending, with the decoded columns;
  when the store rejects it the answer is 500 and the table is unchanged.
\<close>

theorem handler_inserts_what_decodes:
  "(Method r \<noteq> ''POST'' \<or> (\<exists>err. Decode (Body r) = Inl err) \<longrightarrow>
       StatusCode (fst (Event sniff db r NewResponse tbl)) = 400
     \<and> snd (Event sniff db r NewResponse tbl) = tbl)
   \<and> (\<forall>kvs. Body r = Some (JObject kvs) \<and> (\<forall>kv \<in> set kvs. \<exists>s. snd kv = JString s) \<longrightarrow>
         Decode (Body r) = Inr (fst (members kvs (zero_event, False))))
   \<and> (\<forall>ev. Method r = ''POST'' \<and> Decode (Body r) = Inr ev \<longrightarrow>
        (case insert_event db ev tbl of
           Inl err \<Rightarrow> StatusCode (fst (Event sniff db r NewResponse tbl)) = 500
                     \<and> snd (Event sniff db r NewResponse tbl) = tbl
         | Inr t \<Rightarrow> StatusCode (fst (Event sniff db r NewResponse tbl)) = 200
                     \<and> snd (Event sniff db r NewResponse tbl) = t
                     \<and> (\<exists>row. t = tbl @ [row] \<and> status row = Pending
                          \<and> varchar 30 (OrderType ev) = Some (order_type row)
                          \<and> session_id row = SessionID ev
                          \<and> varchar 16 (Card ev) = Some (card_col row)
                          \<and> timestamp_in db (EventDate ev) = Some (event_date row)
                          \<and> website_url row = WebsiteURL ev)))"
proof -
  have 1: "Method r \<noteq> ''POST'' \<or> (\<exists>err. Decode (Body r) = Inl err) \<longrightarrow>
       StatusCode (fst (Event sniff db r NewResponse tbl)) = 400
     \<and> snd (Event sniff db r NewResponse tbl) = tbl"
    by (auto simp: Event_def writeJSON_fresh)
  have 2: "\<forall>kvs. Body r = Some (JObject kvs) \<and> (\<forall>kv \<in> set kvs. \<exists>s. snd kv = JString s) \<longrightarrow>
         Decode (Body r) = Inr (fst (members kvs (zero_event, False)))"
    using Decode_strings by simp
  have 3: "case insert_event db ev tbl of
           Inl err \<Rightarrow> StatusCode (fst (Event sniff db r NewResponse tbl)) = 500
                     \<and> snd (Event sniff db r NewResponse tbl) = tbl
         | Inr t \<Rightarrow> StatusCode (fst (Event sniff db r NewResponse tbl)) = 200
                     \<and> snd (Event sniff db r NewResponse tbl) = t
                     \<and> (\<exists>row. t = tbl @ [row] \<and> status row = Pending
                          \<and> varchar 30 (OrderType ev) = Some (order_type row)
                          \<and> session_id row = SessionID ev
                          \<and> varchar 16 (Card ev) = Some (card_col row)
                          \<and> timestamp_in db (EventDate ev) = Some (event_date row)
                          \<and> website_url row = WebsiteURL ev)"
    if "Method r = ''POST''" and "Decode (Body r) = Inr ev" for ev
  proof (cases "insert_event db ev tbl")
    case (Inl err)
    then show ?thesis using that by (simp add: Event_def writeJSON_fresh)
  next
    case (Inr t)
    then show ?thesis using that insert_event_row [OF Inr] by (simp add: Event_def writeJSON_fresh)
  qed
  from 1 2 3 show ?thesis by blast
qed

text \<open>
  The README's request is stored and answered 200; a GET and a body that is not JSON are
  answered 400; a store that cannot be reached gives 500.
\<close>

theorem handler_inserts_what_decodes_witness:
  "Decode (Some readme_body) = Inr sample_event
   \<and> StatusCode (fst (Event text_plain (sample_pg 1)
        \<lparr>Method = ''POST'', Path = ''/event'', Body = Some readme_body\<rparr> NewResponse [])) = 200
   \<and> snd (Event text_plain (sample_pg 1)
        \<lparr>Method = ''POST'', Path = ''/event'', Body = Some readme_body\<rparr> NewResponse [])
       = [sample_row 1 Pending]
   \<and> StatusCode (fst (Event text_plain (sample_pg 1)
        \<lparr>Method = ''GET'', Path = ''/event'', Body = Some readme_body\<rparr> NewResponse [])) = 400
   \<and> StatusCode (fst (Event text_plain (sample_pg 1)
        \<lparr>Method = ''POST'', Path = ''/event'', Body = None\<rparr> NewResponse [])) = 400
   \<and> StatusCode (fst (Event text_plain ((sample_pg 1)\<lparr>conn_ok := False\<rparr>)
        \<lparr>Method = ''POST'', Path = ''/event'', Body = Some readme_body\<rparr> NewResponse [])) = 500"
proof -
  let ?post = "\<lparr>Method = ''POST'', Path = ''/event'', Body = Some readme_body\<rparr>"
  let ?get = "\<lparr>Method = ''GET'', Path = ''/event'', Body = Some readme_body\<rparr>"
  let ?bad = "\<lparr>Method = ''POST'', Path = ''/event'', Body = None\<rparr>"
  have d: "Decode (Body ?post) = Inr sample_event" by code_simp
  have m: "Method ?post = ''POST''" by simp
  have i: "insert_event (sample_pg 1) sample_event [] = Inr [sample_row 1 Pending]"
    by (simp add: insert_event_def sample_pg_def sample_event_def readme_timestamp_in_def
          varchar_def sample_row_def)
  have j: "insert_event ((sample_pg 1)\<lparr>conn_ok := False\<rparr>) sample_event [] = Inl ConnFailed"
    by (simp add: insert_event_def)
  have g: "Method ?get \<noteq> ''POST''" by simp
  have b: "\<exists>err. Decode (Body ?bad) = Inl err" by (simp add: Decode_def)
  have 1: "StatusCode (fst (Event text_plain (sample_pg 1) ?post NewResponse [])) = 200
        \<and> snd (Event text_plain (sample_pg 1) ?post NewResponse []) = [sample_row 1 Pending]"
    using handler_inserts_what_decodes [of ?post text_plain "sample_pg 1" "[]"] d m i by force
  have 2: "StatusCode (fst (Event text_plain (sample_pg 1) ?get NewResponse [])) = 400"
    using handler_inserts_what_decodes [of ?get text_plain "sample_pg 1" "[]"] g by blast
  have 3: "StatusCode (fst (Event text_plain (sample_pg 1) ?bad NewResponse [])) = 400"
    using handler_inserts_what_decodes [of ?bad text_plain "sample_pg 1" "[]"] b by blast
  have 4: "StatusCode (fst (Event text_plain ((sample_pg 1)\<lparr>conn_ok := False\<rparr>) ?post NewResponse [])) = 500"
    using handler_inserts_what_decodes [of ?post text_plain "(sample_pg 1)\<lparr>conn_ok := False\<rparr>" "[]"] d m j
    by force
  from d 1 2 3 4 show ?thesis by simp
qed

text \<open>
  C8 as stated fails: the README's payload without its \<open>orderType\<close> member is decoded
  (the field stays empty), inserted as a pending row with an empty \<open>order_type\<close>, and
  answered 200.
\<close>

theorem missing_field_counterexample:
  "Decode (Some body_without_orderType) = Inr (sample_event\<lparr>OrderType := []\<rparr>)
   \<and> StatusCode (fst (Event text_plain (sample_pg 1)
        \<lparr>Method = ''POST'', Path = ''/event'', Body = Some body_without_orderType\<rparr>
        NewResponse [])) = 200
   \<and> snd (Event text_plain (sample_pg 1)
        \<lparr>Method = ''POST'', Path = ''/event'', Body = Some body_without_orderType\<rparr>
        NewResponse []) = [(sample_row 1 Pending)\<lparr>order_type := []\<rparr>]"
proof -
  have d: "Decode (Some body_without_orderType) = Inr (sample_event\<lparr>OrderType := []\<rparr>)"
    by code_simp
  have i: "insert_event (sample_pg 1) (sample_event\<lparr>OrderType := []\<rparr>) []
             = Inr [(sample_row 1 Pending)\<lparr>order_type := []\<rparr>]"
    by (simp add: insert_event_def sample_pg_def sample_event_def readme_timestamp_in_def
          varchar_def sample_row_def)
  show ?thesis using d i by (simp add: Event_def writeJSON_fresh)
qed

section \<open>No event is claimed twice\<close>

text \<open>
  When no other statement is in flight, the two phases of a claim statement run one after
  the other are the claim statement of the sequential model.
\<close>

lemma lock_upd_is_claim:
  "row_locks s = [] \<Longrightarrow>
   db_run [Lock w, Upd w em] s =
     (s\<lparr>cart_events := snd (claim em (cart_events s))\<rparr>,
      [(w, fst (claim em (cart_events s)))])"
  by (simp add: claim_def Let_def skip_locked_def locked_ids_def)

lemma status_of_mem:
  "primary_key t \<Longrightarrow> r \<in> set t \<Longrightarrow> status_of (id_col r) t = Some (status r)"
  by (induction t) (auto simp: primary_key_def)

lemma status_of_append:
  "status_of i (t @ [r]) =
     (case status_of i t of
        Some s \<Rightarrow> Some s
      | None \<Rightarrow> if id_col r = i then Some (status r) else None)"
  by (induction t) auto

lemma primary_key_apply_op: "primary_key t \<Longrightarrow> primary_key (apply_op a t)"
proof (cases a)
  case (Insert db ev)
  assume pk: "primary_key t"
  show ?thesis
  proof (cases "insert_event db ev t")
    case (Inl e)
    then show ?thesis using Insert pk by simp
  next
    case (Inr t')
    from insert_event_Inr [OF Inr] obtain r where "t' = t @ [r]" "id_col r \<notin> set (map id_col t)" by blast
    then show ?thesis using Insert Inr pk by (simp add: primary_key_def)
  qed
next
  case (Claim em)
  then show "primary_key t \<Longrightarrow> ?thesis" using primary_key_claim by simp
next
  case (Finalize i)
  then show "primary_key t \<Longrightarrow> ?thesis" by (simp add: primary_key_def)
qed

lemma status_of_insert:
  assumes "status_of i t = Some s"
  shows "status_of i (apply_op (Insert db ev) t) = Some s"
proof (cases "insert_event db ev t")
  case (Inl e)
  then show ?thesis using assms by simp
next
  case (Inr t')
  from insert_event_Inr [OF Inr] obtain r where "t' = t @ [r]" by blast
  then show ?thesis using Inr assms by (simp add: status_of_append)
qed

lemma claim_inv_Ins:
  assumes "claim_inv s ret"
  shows "claim_inv (fst (db_step (Ins db ev) s)) ret"
  using assms unfolding claim_inv_def
  by (auto simp: locked_ids_def primary_key_apply_op status_of_insert simp del: apply_op.simps)

lemma primary_key_filter: "primary_key t \<Longrightarrow> primary_key (filter P t)"
  by (simp add: primary_key_def distinct_map_filter)

lemma distinct_ids_cte: "primary_key t \<Longrightarrow> distinct (map id_col (cte t))"
proof -
  assume "primary_key t"
  then have "primary_key (pending_rows t)" unfolding pending_rows_def by (rule primary_key_filter)
  then have "distinct (map id_col (sort_key id_col (pending_rows t)))"
    by (simp add: primary_key_def distinct_map)
  then have "distinct (take 10 (map id_col (sort_key id_col (pending_rows t))))"
    by (rule distinct_take)
  then show ?thesis by (simp add: cte_def take_map)
qed

lemma claim_inv_Lock:
  assumes "claim_inv s ret"
  shows "claim_inv (fst (db_step (Lock w) s)) ret"
proof (cases "w \<in> set (map fst (row_locks s))")
  case True
  then show ?thesis using assms by simp
next
  case False
  let ?ids = "map id_col (cte (skip_locked s))"
  let ?s = "s\<lparr>row_locks := (w, ?ids) # row_locks s\<rparr>"
  have s: "fst (db_step (Lock w) s) = ?s" using False by simp
  have pk: "primary_key (cart_events s)" using assms by (simp add: claim_inv_def)
  have l: "locked_ids ?s = ?ids @ locked_ids s" by (simp add: locked_ids_def)
  have d: "distinct ?ids"
    unfolding skip_locked_def using primary_key_filter [OF pk] by (rule distinct_ids_cte)
  have c: "r \<in> set (cte (skip_locked s)) \<Longrightarrow> status r = Pending \<and> r \<in> set (cart_events s) \<and> id_col r \<notin> set (locked_ids s)" for r
    using cte_pending [of r "skip_locked s"] by (auto simp: skip_locked_def)
  have "set ?ids \<inter> set (locked_ids s) = {}" using c by auto
  moreover have "\<forall>i \<in> set ?ids. status_of i (cart_events s) = Some Pending"
    using c status_of_mem [OF pk] by fastforce
  ultimately show ?thesis using assms d unfolding s claim_inv_def l by auto
qed

lemma release_locks:
  assumes "distinct (concat (map snd L))" and "map_of L w = Some ids"
  shows "set ids \<inter> set (concat (map snd (filter (\<lambda>p. fst p \<noteq> w) L))) = {}
    \<and> distinct (concat (map snd (filter (\<lambda>p. fst p \<noteq> w) L)))
    \<and> set (concat (map snd (filter (\<lambda>p. fst p \<noteq> w) L))) \<subseteq> set (concat (map snd L))
    \<and> set ids \<subseteq> set (concat (map snd L))"
  using assms
proof (induction L)
  case Nil
  then show ?case by simp
next
  case (Cons p L)
  obtain w0 ids0 where p: "p = (w0, ids0)" by (cases p)
  have sub: "set (concat (map snd (filter (\<lambda>p. fst p \<noteq> w) L))) \<subseteq> set (concat (map snd L))"
    by auto
  have dL: "distinct (concat (map snd L))" and d0: "distinct ids0"
    and dj: "set ids0 \<inter> set (concat (map snd L)) = {}"
    using Cons.prems(1) p by auto
  have dF: "distinct (concat (map snd (filter (\<lambda>p. fst p \<noteq> w) L)))"
    using dL by (induction L) auto
  show ?case
  proof (cases "w0 = w")
    case True
    then have "ids = ids0" using Cons.prems(2) p by simp
    then show ?thesis using True p sub dj dF by auto
  next
    case False
    then have m: "map_of L w = Some ids" using Cons.prems(2) p by simp
    from Cons.IH [OF dL m] show ?thesis using False p d0 dj sub by auto
  qed
qed

lemma distinct_ids_returning:
  "primary_key t \<Longrightarrow> distinct (map id_col (returning em ids t))"
proof -
  assume "primary_key t"
  then have "primary_key (filter (\<lambda>r. id_col r \<in> set ids) t)" by (rule primary_key_filter)
  then show ?thesis by (simp add: returning_def primary_key_def distinct_map)
qed

lemma claim_inv_Upd:
  assumes i: "claim_inv s ret"
  shows "claim_inv (fst (db_step (Upd w em) s)) (ret @ returned_ids (snd (db_step (Upd w em) s)))"
proof (cases "map_of (row_locks s) w")
  case None
  then show ?thesis using i by (simp add: returned_ids_def)
next
  case (Some ids)
  let ?t = "set_processing ids (cart_events s)"
  let ?L = "filter (\<lambda>p. fst p \<noteq> w) (row_locks s)"
  let ?s = "s\<lparr>cart_events := ?t, row_locks := ?L\<rparr>"
  let ?b = "map id_col (returning em ids ?t)"
  have st: "fst (db_step (Upd w em) s) = ?s" and out: "returned_ids (snd (db_step (Upd w em) s)) = ?b"
    using Some by (simp_all add: returned_ids_def Let_def)
  have pk: "primary_key (cart_events s)" and dl: "distinct (concat (map snd (row_locks s)))"
    and lp: "\<forall>i \<in> set (concat (map snd (row_locks s))). status_of i (cart_events s) = Some Pending"
    and rp: "\<forall>i \<in> set ret. status_of i (cart_events s) = Some Processing \<or> status_of i (cart_events s) = Some Processed"
    and dr: "distinct ret"
    using i by (simp_all add: claim_inv_def locked_ids_def)
  from release_locks [OF dl Some]
  have r1: "set ids \<inter> set (concat (map snd ?L)) = {}"
    and r2: "distinct (concat (map snd ?L))"
    and r3: "set (concat (map snd ?L)) \<subseteq> set (concat (map snd (row_locks s)))"
    and r4: "set ids \<subseteq> set (concat (map snd (row_locks s)))"
    by blast+
  have pk': "primary_key ?t" using pk by (simp add: primary_key_def)
  have b_sub: "set ?b \<subseteq> set ids" by (auto simp: set_returning)
  have b_dist: "distinct ?b" using pk' by (rule distinct_ids_returning)
  have ids_pending: "\<forall>i \<in> set ids. status_of i (cart_events s) = Some Pending" using r4 lp by blast
  have disj: "set ret \<inter> set ?b = {}"
  proof -
    { fix i assume "i \<in> set ret" and "i \<in> set ?b"
      then have "status_of i (cart_events s) = Some Pending"
        and "status_of i (cart_events s) = Some Processing \<or> status_of i (cart_events s) = Some Processed"
        using b_sub ids_pending rp by blast+
      then have False by auto }
    then show ?thesis by blast
  qed
  have 3: "\<forall>i \<in> set (concat (map snd ?L)). status_of i ?t = Some Pending"
  proof
    fix i assume a: "i \<in> set (concat (map snd ?L))"
    then have "i \<notin> set ids" using r1 by blast
    moreover have "status_of i (cart_events s) = Some Pending" using a r3 lp by blast
    ultimately show "status_of i ?t = Some Pending" by (simp add: status_of_set_processing)
  qed
  have 4: "\<forall>i \<in> set (ret @ ?b). status_of i ?t = Some Processing \<or> status_of i ?t = Some Processed"
  proof
    fix i assume "i \<in> set (ret @ ?b)"
    then consider "i \<in> set ret" | "i \<in> set ?b" by auto
    then show "status_of i ?t = Some Processing \<or> status_of i ?t = Some Processed"
    proof cases
      case 1
      then have n: "status_of i (cart_events s) = Some Processing \<or> status_of i (cart_events s) = Some Processed"
        using rp by blast
      then have "i \<notin> set ids" using ids_pending by auto
      then show ?thesis using n by (simp add: status_of_set_processing)
    next
      case 2
      then have "i \<in> set ids" using b_sub by blast
      moreover from this have "status_of i (cart_events s) = Some Pending" using ids_pending by blast
      ultimately show ?thesis by (simp add: status_of_set_processing)
    qed
  qed
  have 5: "distinct (ret @ ?b)" using dr b_dist disj by simp
  show ?thesis unfolding st out claim_inv_def locked_ids_def using pk' r2 3 4 5 by simp
qed

lemma claim_inv_Fin:
  assumes "claim_inv s ret"
  shows "claim_inv (fst (db_step (Fin i) s)) ret"
  using assms unfolding claim_inv_def
  by (auto simp: locked_ids_def primary_key_def status_of_finalize)

lemma claim_inv_step:
  assumes "claim_inv s ret"
  shows "claim_inv (fst (db_step a s)) (ret @ returned_ids (snd (db_step a s)))"
proof (cases a)
  case (Ins db ev)
  have "returned_ids (snd (db_step (Ins db ev) s)) = []" by (simp add: returned_ids_def)
  with claim_inv_Ins [OF assms, of db ev] Ins show ?thesis by (simp del: db_step.simps)
next
  case (Lock w)
  have "returned_ids (snd (db_step (Lock w) s)) = []" by (simp add: returned_ids_def)
  with claim_inv_Lock [OF assms, of w] Lock show ?thesis by (simp del: db_step.simps)
next
  case (Upd w em)
  then show ?thesis using claim_inv_Upd [OF assms] by simp
next
  case (Fin i)
  have "returned_ids (snd (db_step (Fin i) s)) = []" by (simp add: returned_ids_def)
  with claim_inv_Fin [OF assms, of i] Fin show ?thesis by (simp del: db_step.simps)
qed

lemma db_run_Cons:
  "db_run (a # acts) s =
     (fst (db_run acts (fst (db_step a s))), snd (db_step a s) @ snd (db_run acts (fst (db_step a s))))"
  by (simp split: prod.splits)

lemma claim_inv_run:
  "claim_inv s ret \<Longrightarrow> claim_inv (fst (db_run acts s)) (ret @ returned_ids (snd (db_run acts s)))"
proof (induction acts arbitrary: s ret)
  case Nil
  then show ?case by (simp add: returned_ids_def)
next
  case (Cons a acts)
  from claim_inv_step [OF Cons.prems, of a]
  have "claim_inv (fst (db_step a s)) (ret @ returned_ids (snd (db_step a s)))" .
  from Cons.IH [OF this] show ?case
    by (simp add: db_run_Cons returned_ids_def del: db_run.simps db_step.simps)
qed

text \<open>
  C1. Start from any table that respects the primary key, with no statement in flight, and
  let any number of workers and the HTTP handler act in any interleaving: INSERTs, the two
  phases of claim statements, terminal updates. Then no identifier occurs twice among all
  the rows that the claim statements of the run return: an event is handed to at most one
  worker, and to this worker at most once.
\<close>

theorem no_double_claim:
  assumes "primary_key t"
  shows "distinct (returned_ids (snd (db_run acts \<lparr>cart_events = t, row_locks = []\<rparr>)))"
proof -
  have "claim_inv \<lparr>cart_events = t, row_locks = []\<rparr> []" using assms by (simp add: claim_inv_def locked_ids_def)
  from claim_inv_run [OF this, of acts] show ?thesis by (simp add: claim_inv_def)
qed

text \<open>
  Two workers claim at the same time on the twelve sample events while a thirteenth is
  inserted: worker 2 receives 12 and 11, worker 1 receives 1 to 10 and later 13.
\<close>

theorem no_double_claim_witness:
  "primary_key sample_table
   \<and> map fst (snd (db_run interleaved \<lparr>cart_events = sample_table, row_locks = []\<rparr>)) = [2, 1, 1]
   \<and> returned_ids (snd (db_run interleaved \<lparr>cart_events = sample_table, row_locks = []\<rparr>))
       = [12, 11, 1, 2, 3, 4, 5, 6, 7, 8, 9, 10, 13]
   \<and> distinct (returned_ids (snd (db_run interleaved \<lparr>cart_events = sample_table, row_locks = []\<rparr>)))"
proof -
  have h: "primary_key sample_table" by code_simp
  have a: "map fst (snd (db_run interleaved \<lparr>cart_events = sample_table, row_locks = []\<rparr>)) = [2, 1, 1]"
    by code_simp
  have b: "returned_ids (snd (db_run interleaved \<lparr>cart_events = sample_table, row_locks = []\<rparr>))
       = [12, 11, 1, 2, 3, 4, 5, 6, 7, 8, 9, 10, 13]"
    by code_simp
  from no_double_claim [OF h, of interleaved] h a b show ?thesis by (simp only: simp_thms)
qed

section \<open>One batch\<close>






















section \<open>Shutdown\<close>

lemma active_Cons:
  "length (filter (\<lambda>pc. pc \<noteq> Exited) (w # ws)) =
     (if w = Exited then 0 else 1) + length (filter (\<lambda>pc. pc \<noteq> Exited) ws)"
  by simp

lemma active_pos:
  "j < length ws \<Longrightarrow> ws ! j \<noteq> Exited \<Longrightarrow> 0 < length (filter (\<lambda>pc. pc \<noteq> Exited) ws)"
  by (induction ws arbitrary: j) (auto simp: nth_Cons split: nat.splits)

lemma active_update:
  assumes "i < length ws"
  shows "length (filter (\<lambda>pc. pc \<noteq> Exited) (ws[i := pc'])) + (if ws ! i = Exited then 0 else 1) =
     length (filter (\<lambda>pc. pc \<noteq> Exited) ws) + (if pc' = Exited then 0 else 1)"
  using assms
proof (induction ws arbitrary: i)
  case Nil
  then show ?case by simp
next
  case (Cons w ws)
  show ?case
  proof (cases i)
    case 0
    then show ?thesis by simp
  next
    case (Suc j)
    with Cons.prems have j: "j < length ws" by simp
    from Cons.IH [OF j] Suc show ?thesis by (auto split: if_splits)
  qed
qed


lemma drained_iff: "drained s \<longleftrightarrow> active s = 0"
  by (simp add: drained_def active_def list_all_iff filter_empty_conv)

lemma pinv_init: "pinv (NewPool n)"
  by (simp add: pinv_def NewPool_def active_def drained_def)

lemma wg_worker_step:
  assumes "wg s = active s" and i: "i < length (workers s)"
  shows "(if workers s ! i \<noteq> Exited \<and> worker_step d n ok (workers s ! i) = Exited
          then wg s - 1 else wg s)
       = length (filter (\<lambda>pc. pc \<noteq> Exited) ((workers s)[i := worker_step d n ok (workers s ! i)]))"
proof -
  let ?pc = "workers s ! i" and ?pc' = "worker_step d n ok (workers s ! i)"
  note u = active_update [OF i, of ?pc']
  show ?thesis
  proof (cases "?pc = Exited")
    case True
    then have "?pc' = Exited" by simp
    with True u assms(1) show ?thesis by (simp add: active_def)
  next
    case False
    with u assms(1) show ?thesis by (auto simp: active_def split: if_splits)
  qed
qed

lemma drained_worker_step:
  assumes "drained s" and i: "i < length (workers s)"
  shows "(workers s)[i := worker_step d n ok (workers s ! i)] = workers s"
proof -
  have "workers s ! i = Exited" using assms by (simp add: drained_def list_all_length)
  moreover have "worker_step d n ok Exited = Exited" by simp
  ultimately show ?thesis by (metis list_update_id)
qed

lemma pinv_Signal: "pinv s \<Longrightarrow> pinv (pstep Signal s)"
  by (auto simp: pinv_def active_def drained_def)

lemma pinv_SignalStep: "pinv s \<Longrightarrow> pinv (pstep SignalStep s)"
  by (cases "sigpc s") (auto simp: pinv_def active_def drained_def list_all_iff filter_empty_conv)

lemma pinv_ServeReturns: "pinv s \<Longrightarrow> pinv (pstep ServeReturns s)"
  by (auto simp: pinv_def active_def drained_def)

lemma pinv_WorkerStep:
  assumes p: "pinv s"
  shows "pinv (pstep (WorkerStep i n ok) s)"
proof (cases "alive s \<and> i < length (workers s)")
  case False
  then show ?thesis using p by auto
next
  case True
  let ?ws = "(workers s)[i := worker_step (ctx_done s) n ok (workers s ! i)]"
  let ?wg = "if workers s ! i \<noteq> Exited \<and> worker_step (ctx_done s) n ok (workers s ! i) = Exited
             then wg s - 1 else wg s"
  have st: "pstep (WorkerStep i n ok) s = s\<lparr>workers := ?ws, wg := ?wg\<rparr>"
    using True by (simp add: Let_def)
  have w: "?wg = length (filter (\<lambda>pc. pc \<noteq> Exited) ?ws)"
    using p True by (intro wg_worker_step) (simp_all add: pinv_def)
  define s' where "s' = s\<lparr>workers := ?ws, wg := ?wg\<rparr>"
  have f: "sigpc s' = sigpc s" "ctx_done s' = ctx_done s" "serving s' = serving s"
    "db_open s' = db_open s" "alive s' = alive s"
    by (simp_all add: s'_def)
  have a: "wg s' = active s'" using w by (simp add: s'_def active_def)
  have d: "drained s'" if "drained s"
    using that True drained_worker_step [of s i "ctx_done s" n ok]
    by (simp add: s'_def drained_def)
  have "pinv s'" unfolding pinv_def f using p a d unfolding pinv_def by blast
  then show ?thesis unfolding st s'_def .
qed






lemma pinv_pstep: "pinv s \<Longrightarrow> pinv (pstep e s)"
  by (cases e) (simp_all only: pinv_Signal pinv_SignalStep pinv_WorkerStep pinv_ServeReturns)

lemma pinv_prun: "pinv s \<Longrightarrow> pinv (prun ms s)"
  unfolding prun_def by (induction ms arbitrary: s) (simp_all add: pinv_pstep del: pstep.simps)



text \<open>
  C6, as the code has it. The signal goroutine first cancels the workers' context, then
  waits for the pool to drain, then stops the HTTP server, then closes the store: when it
  is about to call \<open>server.Shutdown\<close> the workers have all returned and the store is open
  (and the server is still serving, if the process is alive); when it is about to call
  \<open>db.Close\<close> the workers have all returned and the server has stopped; and the store is
  closed only in states where the workers have returned and the server has stopped.
\<close>

theorem shutdown_order:
  "(sigpc (prun ms (NewPool n)) \<in> {AtWait, AtShutdown, AtClose, AtEnd} \<longrightarrow>
      ctx_done (prun ms (NewPool n)))
   \<and> (sigpc (prun ms (NewPool n)) = AtShutdown \<longrightarrow>
        drained (prun ms (NewPool n)) \<and> db_open (prun ms (NewPool n))
      \<and> (alive (prun ms (NewPool n)) \<longrightarrow> serving (prun ms (NewPool n))))
   \<and> (sigpc (prun ms (NewPool n)) = AtClose \<longrightarrow>
        drained (prun ms (NewPool n)) \<and> \<not> serving (prun ms (NewPool n))
      \<and> db_open (prun ms (NewPool n)))
   \<and> (\<not> db_open (prun ms (NewPool n)) \<longrightarrow>
        drained (prun ms (NewPool n)) \<and> \<not> serving (prun ms (NewPool n)))"
proof -
  have "pinv (prun ms (NewPool n))" using pinv_init by (rule pinv_prun)
  then show ?thesis by (auto simp: pinv_def)
qed

theorem shutdown_order_witness:
  "sigpc (prun (drain_moves @ [SignalStep]) (NewPool WorkerCount)) = AtClose
   \<and> drained (prun (drain_moves @ [SignalStep]) (NewPool WorkerCount))
   \<and> \<not> serving (prun (drain_moves @ [SignalStep]) (NewPool WorkerCount))
   \<and> db_open (prun (drain_moves @ [SignalStep]) (NewPool WorkerCount))
   \<and> \<not> db_open (prun (drain_moves @ [SignalStep, SignalStep]) (NewPool WorkerCount))
   \<and> drained (prun (drain_moves @ [SignalStep, SignalStep]) (NewPool WorkerCount))"
proof -
  have a: "sigpc (prun (drain_moves @ [SignalStep]) (NewPool WorkerCount)) = AtClose"
    by code_simp
  have b: "\<not> db_open (prun (drain_moves @ [SignalStep, SignalStep]) (NewPool WorkerCount))"
    by code_simp
  note t = shutdown_order [of "drain_moves @ [SignalStep]" WorkerCount,
      THEN conjunct2, THEN conjunct2, THEN conjunct1, THEN mp, OF a]
  note u = shutdown_order [of "drain_moves @ [SignalStep, SignalStep]" WorkerCount,
      THEN conjunct2, THEN conjunct2, THEN conjunct2, THEN mp, OF b]
  from a b t u show ?thesis by simp
qed

text \<open>
  C6 as stated fails: the claim puts the stop of the HTTP server before the drain of the
  pool. After the signal, when the eight workers have returned and \<open>wg.Wait()\<close> has
  returned, the pool is drained and the server is still accepting connections.
\<close>

theorem http_stops_after_drain_counterexample:
  "sigpc (prun drain_moves (NewPool WorkerCount)) = AtShutdown
   \<and> workers (prun drain_moves (NewPool WorkerCount)) = replicate 8 Exited
   \<and> wg (prun drain_moves (NewPool WorkerCount)) = 0
   \<and> serving (prun drain_moves (NewPool WorkerCount))
   \<and> alive (prun drain_moves (NewPool WorkerCount))
   \<and> db_open (prun drain_moves (NewPool WorkerCount))"
  by code_simp

end
